theory Spec2Isabelle
  imports Main "HOL-Library.Word"
begin

section \<open>The virtual tap device of src/VirtualTap.cpp\<close>

text \<open>
  The theory embeds the class \<^verbatim>\<open>ZeroTier::VirtualTap\<close>. Member functions become
  functions that take the object state and return the results together with the new
  state. Calls into collaborators that are not part of the class (the event queue, the
  lwIP driver, the thread and the pipe) are recorded, in program order, in a list of
  effects carried by the state. The mutexes are not modelled: every member function is
  taken as one atomic step.
\<close>

subsection \<open>Data\<close>

text \<open>A \<^verbatim>\<open>void *\<close> is an address; the null pointer is \<open>0\<close>.\<close>

type_synonym handle = nat

text \<open>\<^verbatim>\<open>MAC\<close> wraps one \<^verbatim>\<open>uint64_t\<close>; the network id is a \<^verbatim>\<open>uint64_t\<close>.\<close>

type_synonym MAC = "64 word"

text \<open>The event codes of \<^verbatim>\<open>libzt.h\<close> that the class uses, as distinct constants.\<close>

datatype event =
    ZTS_EVENT_NONE
  | ZTS_EVENT_NETWORK_DOWN
  | ZTS_EVENT_NETIF_UP_IP4
  | ZTS_EVENT_NETIF_UP_IP6
  | ZTS_EVENT_NETIF_DOWN_IP4
  | ZTS_EVENT_NETIF_DOWN_IP6

text \<open>
  What the class does to the world outside its own fields. \<open>SysPipe\<close>, \<open>SysWrite\<close> and
  \<open>SysClose\<close> name an end of \<^verbatim>\<open>_shutdownSignalPipe\<close> by its index (0 is the read end,
  1 the write end). \<open>StoreRun\<close> is the assignment to \<^verbatim>\<open>_run\<close>, recorded so that its place
  among the calls is visible.
\<close>

datatype 'a effect =
    PostEvent "64 word" event
  | StoreRun bool
  | SysPipe
  | SysWrite nat "8 word list"
  | SysClose nat
  | PhyWhack
  | LwipDisposeOfNetifs
  | ThreadStart
  | ThreadJoin
  | LwipInitInterface MAC 'a

text \<open>
  The fields of the object. \<open>'a\<close> is \<^verbatim>\<open>InetAddress\<close> and \<open>'g\<close> is \<^verbatim>\<open>MulticastGroup\<close>;
  both classes are declared outside \<^verbatim>\<open>VirtualTap.cpp\<close>, and all that is used of them is
  \<^verbatim>\<open>operator==\<close> and \<^verbatim>\<open>operator<\<close>, taken to be equality and a linear order.
\<close>

record ('a, 'g) VirtualTap =
  tap_initialized :: bool
  tap_enabled :: bool
  tap_run :: bool
  tap_mac :: MAC
  tap_mtu :: "32 word"
  tap_nwid :: "64 word"
  tap_ips :: "'a list"
  tap_multicastGroups :: "'g list"
  netif4 :: handle
  netif6 :: handle
  netif4WasUpLastCheck :: bool
  netif6WasUpLastCheck :: bool
  effects :: "'a effect list"

definition emit :: "'a effect \<Rightarrow> ('a, 'g) VirtualTap \<Rightarrow> ('a, 'g) VirtualTap" where
  "emit e s = s\<lparr>effects := effects s @ [e]\<rparr>"

text \<open>Undefined behaviour of the C++ program is a result of its own.\<close>

datatype error = EraseAtEnd | SearchUnpartitioned

subsection \<open>The standard algorithms the class calls\<close>

text \<open>
  \<^verbatim>\<open>std::find(begin, end, x)\<close>: the index of the first element equal to \<open>x\<close>, the
  length of the vector (the \<^verbatim>\<open>end()\<close> iterator) when there is none.
\<close>

fun std_find :: "'a list \<Rightarrow> 'a \<Rightarrow> nat" where
  "std_find [] x = 0"
| "std_find (y # ys) x = (if y = x then 0 else Suc (std_find ys x))"

text \<open>
  \<^verbatim>\<open>vector::erase(i)\<close> needs a dereferenceable iterator. Erasing \<^verbatim>\<open>end()\<close> is
  undefined behaviour.
\<close>

definition std_erase :: "'a list \<Rightarrow> nat \<Rightarrow> error + 'a list" where
  "std_erase xs i = (if i < length xs then Inr (take i xs @ drop (Suc i) xs) else Inl EraseAtEnd)"

text \<open>
  \<^verbatim>\<open>std::adjacent_find\<close>, as the standard libraries implement it: the index of the
  first element that equals its successor, the length when there is none. The iterator
  never passes \<^verbatim>\<open>last\<close>, so the test \<^verbatim>\<open>++next != last\<close> is written with \<open><\<close>.
\<close>

function adjacent_find :: "'a list \<Rightarrow> nat \<Rightarrow> nat" where
  "adjacent_find xs first =
     (if first + 1 < length xs
      then (if xs ! first = xs ! (first + 1) then first else adjacent_find xs (first + 1))
      else length xs)"
  by pat_completeness auto
termination
  by (relation "measure (\<lambda>(xs, first). length xs - first)") auto

declare adjacent_find.simps [simp del]

text \<open>
  \<^verbatim>\<open>std::unique\<close>, as libstdc++ and libc++ implement it:
  \<^verbatim>\<open>
  first = adjacent_find(first, last);
  if (first == last) return last;
  dest = first; ++first;
  while (++first != last)
    if (!(*dest == *first)) *++dest = std::move(*first);
  return ++dest;
  \<close>
  The vector keeps its length. A \<^verbatim>\<open>MulticastGroup\<close> is a pair of integers, so that a
  moved-from element keeps its value; the elements from the returned iterator on are
  the ones that were there before. \<open>unique_loop\<close> is the \<^verbatim>\<open>while\<close> loop, entered with
  \<open>first\<close> before its increment; the result is the vector and the iterator returned.
\<close>

function unique_loop :: "'a list \<Rightarrow> nat \<Rightarrow> nat \<Rightarrow> 'a list \<times> nat" where
  "unique_loop xs dest first =
     (if first + 1 < length xs
      then (if xs ! dest \<noteq> xs ! (first + 1)
            then unique_loop (xs[dest + 1 := xs ! (first + 1)]) (dest + 1) (first + 1)
            else unique_loop xs dest (first + 1))
      else (xs, dest + 1))"
  by pat_completeness auto
termination
  by (relation "measure (\<lambda>(xs, dest, first). length xs - first)") auto

declare unique_loop.simps [simp del]

definition std_unique :: "'a list \<Rightarrow> 'a list \<times> nat" where
  "std_unique xs =
     (let first = adjacent_find xs 0
      in if first = length xs then (xs, length xs) else unique_loop xs first (first + 1))"

text \<open>
  A range is partitioned by a predicate when every element that satisfies it comes
  before every element that does not.
\<close>

definition partitioned :: "('a \<Rightarrow> bool) \<Rightarrow> 'a list \<Rightarrow> bool" where
  "partitioned P xs = (\<not> list_ex P (dropWhile P xs))"

text \<open>
  \<^verbatim>\<open>std::lower_bound\<close>, as the standard libraries implement it: halving on
  \<^verbatim>\<open>operator<\<close>.
  \<^verbatim>\<open>
  while (len > 0) {
    half = len >> 1; middle = first + half;
    if (*middle < val) { first = middle + 1; len = len - half - 1; }
    else len = half;
  }
  return first;
  \<close>
\<close>

function lower_bound :: "'a::linorder list \<Rightarrow> 'a \<Rightarrow> nat \<Rightarrow> nat \<Rightarrow> nat" where
  "lower_bound xs val first len =
     (if 0 < len
      then (let half = len div 2; middle = first + half
            in if xs ! middle < val
               then lower_bound xs val (middle + 1) (len - half - 1)
               else lower_bound xs val first half)
      else first)"
  by pat_completeness auto
termination
  by (relation "measure (\<lambda>(xs, val, first, len). len)") auto

declare lower_bound.simps [simp del]

text \<open>
  \<^verbatim>\<open>std::binary_search(first, last, val)\<close> requires the elements \<open>e\<close> of the range to be
  partitioned with respect to \<^verbatim>\<open>e < val\<close> and with respect to \<^verbatim>\<open>!(val < e)\<close>. On a
  range that is not, the call is undefined behaviour. Where it is defined, the value is
  \<^verbatim>\<open>i != last && !(val < *i)\<close> for the iterator \<open>i\<close> that \<^verbatim>\<open>std::lower_bound\<close> finds.
\<close>

definition binary_search :: "'a::linorder list \<Rightarrow> 'a \<Rightarrow> error + bool" where
  "binary_search xs val =
     (if partitioned (\<lambda>e. e < val) xs \<and> partitioned (\<lambda>e. \<not> val < e) xs
      then (let i = lower_bound xs val 0 (length xs)
            in Inr (i \<noteq> length xs \<and> \<not> (val < xs ! i)))
      else Inl SearchUnpartitioned)"

subsection \<open>Construction and destruction\<close>

text \<open>
  The constructor. The member initialisers of \<^verbatim>\<open>VirtualTap.hpp\<close> for the two interface
  slots and their flags are not part of \<^verbatim>\<open>VirtualTap.cpp\<close> and are parameters here. Members
  that none of the functions below reads (the handler, the home path, the device name,
  the socket layer) are left out of the record.
\<close>

definition VirtualTap_ctor ::
    "MAC \<Rightarrow> 32 word \<Rightarrow> 64 word \<Rightarrow> handle \<Rightarrow> handle \<Rightarrow> bool \<Rightarrow> bool \<Rightarrow> ('a, 'g) VirtualTap" where
  "VirtualTap_ctor mac mtu nwid n4 n6 up4 up6 =
     \<lparr> tap_initialized = False, tap_enabled = True, tap_run = True,
       tap_mac = mac, tap_mtu = mtu, tap_nwid = nwid,
       tap_ips = [], tap_multicastGroups = [],
       netif4 = n4, netif6 = n6,
       netif4WasUpLastCheck = up4, netif6WasUpLastCheck = up6,
       effects = [SysPipe, ThreadStart] \<rparr>"

definition destructor :: "('a, 'g) VirtualTap \<Rightarrow> ('a, 'g) VirtualTap" where
  "destructor s =
     (let s = emit (PostEvent (tap_nwid s) ZTS_EVENT_NETWORK_DOWN) s;
          s = emit (StoreRun False) (s\<lparr>tap_run := False\<rparr>);
          s = emit (SysWrite 1 [0]) s;
          s = emit PhyWhack s;
          s = emit LwipDisposeOfNetifs s;
          s = emit ThreadJoin s;
          s = emit (SysClose 0) s;
          s = emit (SysClose 1) s
      in s)"

subsection \<open>Interface state changes\<close>

text \<open>
  \<open>up\<close> is \<^verbatim>\<open>lwip_is_netif_up\<close>, the driver's answer at the time of the call. The
  body of each of the two \<^verbatim>\<open>if (n == netif...)\<close> blocks either returns a code, with the
  flag updated, or falls out of the block (\<open>None\<close>); control then reaches the next
  statement.
\<close>

definition netif4_block ::
    "(handle \<Rightarrow> bool) \<Rightarrow> ('a, 'g) VirtualTap \<Rightarrow> (event \<times> ('a, 'g) VirtualTap) option" where
  "netif4_block up s =
     (if netif4WasUpLastCheck s \<and> \<not> up (netif4 s)
      then Some (ZTS_EVENT_NETIF_DOWN_IP4, s\<lparr>netif4WasUpLastCheck := False\<rparr>)
      else if \<not> netif4WasUpLastCheck s \<and> up (netif4 s)
      then Some (ZTS_EVENT_NETIF_UP_IP4, s\<lparr>netif4WasUpLastCheck := True\<rparr>)
      else None)"

definition netif6_block ::
    "(handle \<Rightarrow> bool) \<Rightarrow> ('a, 'g) VirtualTap \<Rightarrow> (event \<times> ('a, 'g) VirtualTap) option" where
  "netif6_block up s =
     (if netif6WasUpLastCheck s \<and> \<not> up (netif6 s)
      then Some (ZTS_EVENT_NETIF_DOWN_IP6, s\<lparr>netif6WasUpLastCheck := False\<rparr>)
      else if \<not> netif6WasUpLastCheck s \<and> up (netif6 s)
      then Some (ZTS_EVENT_NETIF_UP_IP6, s\<lparr>netif6WasUpLastCheck := True\<rparr>)
      else None)"

definition recognizeLowerLevelInterfaceStateChange ::
    "(handle \<Rightarrow> bool) \<Rightarrow> handle \<Rightarrow> ('a, 'g) VirtualTap \<Rightarrow> event \<times> ('a, 'g) VirtualTap" where
  "recognizeLowerLevelInterfaceStateChange up n s =
     (if n = 0 then (ZTS_EVENT_NONE, s)
      else case (if n = netif4 s then netif4_block up s else None) of
        Some r \<Rightarrow> r
      | None \<Rightarrow>
          (case (if n = netif6 s then netif6_block up s else None) of
             Some r \<Rightarrow> r
           | None \<Rightarrow> (ZTS_EVENT_NONE, s)))"

text \<open>
  Polling a handle once for each answer of the driver in a list, in order: the codes
  returned and the final state.
\<close>

fun poll :: "handle \<Rightarrow> bool list \<Rightarrow> ('a, 'g) VirtualTap \<Rightarrow> event list \<times> ('a, 'g) VirtualTap" where
  "poll n [] s = ([], s)"
| "poll n (u # us) s =
     (case recognizeLowerLevelInterfaceStateChange (\<lambda>_. u) n s of
        (e, s') \<Rightarrow> (case poll n us s' of (es, s'') \<Rightarrow> (e # es, s'')))"

subsection \<open>The address set\<close>

definition addIp :: "'a::linorder \<Rightarrow> ('a, 'g) VirtualTap \<Rightarrow> bool \<times> ('a, 'g) VirtualTap" where
  "addIp ip s =
     (let s = emit (LwipInitInterface (tap_mac s) ip) s;
          s = (if std_find (tap_ips s) ip = length (tap_ips s)
               then s\<lparr>tap_ips := sort (tap_ips s @ [ip])\<rparr>
               else s)
      in (True, s))"

text \<open>
  The test of the iterator against \<^verbatim>\<open>end()\<close> is commented out in the source, so the
  iterator found is erased whatever it is. The two \<^verbatim>\<open>if\<close> blocks on the address family
  are empty.
\<close>

definition removeIp :: "'a \<Rightarrow> ('a, 'g) VirtualTap \<Rightarrow> error + bool \<times> ('a, 'g) VirtualTap" where
  "removeIp ip s =
     (let i = std_find (tap_ips s) ip
      in case std_erase (tap_ips s) i of
           Inl e \<Rightarrow> Inl e
         | Inr v \<Rightarrow> Inr (True, s\<lparr>tap_ips := v\<rparr>))"

definition ips :: "('a, 'g) VirtualTap \<Rightarrow> 'a list" where
  "ips s = tap_ips s"

text \<open>A sequence of calls on the address set stops at the first undefined one.\<close>

datatype 'a call = Add 'a | Remove 'a

fun run_calls :: "'a::linorder call list \<Rightarrow> ('a, 'g) VirtualTap \<Rightarrow> error + ('a, 'g) VirtualTap" where
  "run_calls [] s = Inr s"
| "run_calls (Add ip # cs) s = run_calls cs (snd (addIp ip s))"
| "run_calls (Remove ip # cs) s =
     (case removeIp ip s of Inl e \<Rightarrow> Inl e | Inr (r, s') \<Rightarrow> run_calls cs s')"

subsection \<open>Multicast groups\<close>

text \<open>
  Each of the two loops of the scan walks a vector and appends to \<open>out\<close> the elements
  that \<^verbatim>\<open>std::binary_search\<close> does not find in \<open>hay\<close>. The loop stops at the first
  undefined search.
\<close>

fun push_back_unless_found ::
    "'g::linorder list \<Rightarrow> 'g list \<Rightarrow> 'g list \<Rightarrow> error + 'g list" where
  "push_back_unless_found hay out [] = Inr out"
| "push_back_unless_found hay out (m # ms) =
     (case binary_search hay m of
        Inl e \<Rightarrow> Inl e
      | Inr found \<Rightarrow> push_back_unless_found hay (if \<not> found then out @ [m] else out) ms)"

text \<open>
  \<open>derive\<close> is \<^verbatim>\<open>MulticastGroup::deriveMulticastGroupForAddressResolution\<close>, declared
  outside \<^verbatim>\<open>VirtualTap.cpp\<close>. \<open>added\<close> and \<open>removed\<close> are the vectors the caller passes by
  reference; the function returns them with the new state. \<^verbatim>\<open>std::sort\<close> on a linear
  order yields the one sorted arrangement of the elements, which is \<open>sort\<close>. The value
  \<^verbatim>\<open>std::unique\<close> returns is dropped, as in the source.
\<close>

definition scanMulticastGroups ::
    "('a \<Rightarrow> 'g::linorder) \<Rightarrow> 'g list \<Rightarrow> 'g list \<Rightarrow> ('a, 'g) VirtualTap
       \<Rightarrow> error + 'g list \<times> 'g list \<times> ('a, 'g) VirtualTap" where
  "scanMulticastGroups derive added removed s =
     (let allIps = ips s;
          newGroups = foldl (\<lambda>ng ip. ng @ [derive ip]) [] allIps;
          newGroups = sort newGroups;
          newGroups = fst (std_unique newGroups)
      in case push_back_unless_found (tap_multicastGroups s) added newGroups of
           Inl e \<Rightarrow> Inl e
         | Inr added \<Rightarrow>
             (case push_back_unless_found newGroups removed (tap_multicastGroups s) of
                Inl e \<Rightarrow> Inl e
              | Inr removed \<Rightarrow> Inr (added, removed, s\<lparr>tap_multicastGroups := newGroups\<rparr>)))"

text \<open>
  The vector \<^verbatim>\<open>newGroups\<close> as it stands when the two loops of the scan run and when
  it is swapped into \<^verbatim>\<open>_multicastGroups\<close>.
\<close>

definition new_groups :: "('a \<Rightarrow> 'g::linorder) \<Rightarrow> ('a, 'g) VirtualTap \<Rightarrow> 'g list" where
  "new_groups derive s = fst (std_unique (sort (map derive (ips s))))"

subsection \<open>A concrete device\<close>

text \<open>
  A device as the constructor leaves it, with addresses and groups that are numbers, the
  IPv4 interface at address 7 and the IPv6 interface at address 9, both seen up. Its
  derivation function keeps the low four bits of an address, so that different addresses
  can derive the same group.
\<close>

definition example_tap :: "(nat, nat) VirtualTap" where
  "example_tap = VirtualTap_ctor 0x0A0B0C0D0E0F 2800 0x8056C2E21C000001 7 9 True True"

definition low_bits :: "nat \<Rightarrow> nat" where
  "low_bits a = a mod 16"

section \<open>Properties\<close>

subsection \<open>Helper facts on the standard algorithms\<close>

lemma std_find_length_iff: "std_find xs x = length xs \<longleftrightarrow> x \<notin> set xs"
proof (induction xs)
  case Nil
  show ?case by simp
next
  case (Cons y ys)
  have "std_find ys x \<le> length ys" for ys :: "'a list"
    by (induction ys) auto
  with Cons show ?case by auto
qed

lemma std_find_less_iff: "std_find xs x < length xs \<longleftrightarrow> x \<in> set xs"
  by (induction xs) auto

lemma foldl_derive: "foldl (\<lambda>ng ip. ng @ [f ip]) acc0 xs = acc0 @ map f xs"
  by (induction xs arbitrary: acc0) auto

lemma std_unique_Nil: "std_unique [] = ([], 0)"
  by (simp add: std_unique_def adjacent_find.simps)

text \<open>
  \<^verbatim>\<open>std::unique\<close> leaves the vector with its consecutive duplicates removed at the
  front, followed by what was in the remaining places before.
\<close>

lemma adjacent_find_spec:
  "adjacent_find xs i = r \<Longrightarrow>
     (\<forall>j. i \<le> j \<and> j < r \<and> Suc j < length xs \<longrightarrow> xs ! j \<noteq> xs ! Suc j)
     \<and> (r = length xs \<or> (i \<le> r \<and> Suc r < length xs \<and> xs ! r = xs ! Suc r))"
proof (induction xs i arbitrary: r rule: adjacent_find.induct)
  case (1 xs first)
  show ?case
  proof (cases "first + 1 < length xs")
    case False
    with "1.prems" have "r = length xs"
      by (simp add: adjacent_find.simps [of xs first])
    with False show ?thesis by auto
  next
    case inside: True
    show ?thesis
    proof (cases "xs ! first = xs ! (first + 1)")
      case True
      with inside "1.prems" have "r = first"
        by (simp add: adjacent_find.simps [of xs first])
      with inside True show ?thesis by auto
    next
      case False
      with inside "1.prems" have rec: "adjacent_find xs (first + 1) = r"
        by (simp add: adjacent_find.simps [of xs first])
      from "1.IH" [OF inside False rec]
      have ih: "\<forall>j. first + 1 \<le> j \<and> j < r \<and> Suc j < length xs \<longrightarrow> xs ! j \<noteq> xs ! Suc j"
        and fin: "r = length xs \<or> (first + 1 \<le> r \<and> Suc r < length xs \<and> xs ! r = xs ! Suc r)"
        by blast+
      have "xs ! j \<noteq> xs ! Suc j" if "first \<le> j" "j < r" "Suc j < length xs" for j
      proof (cases "j = first")
        case True
        with False show ?thesis by simp
      next
        case False
        with that ih show ?thesis by simp
      qed
      with fin show ?thesis by auto
    qed
  qed
qed

lemma remdups_adj_take_step:
  assumes "Suc i < length ys"
  shows "remdups_adj (take (Suc (Suc i)) ys) =
           remdups_adj (take (Suc i) ys) @ (if ys ! i = ys ! Suc i then [] else [ys ! Suc i])"
proof -
  from assms have a: "take (Suc (Suc i)) ys = take (Suc i) ys @ [ys ! Suc i]"
    by (simp add: take_Suc_conv_app_nth)
  from assms have b: "take (Suc i) ys = take i ys @ [ys ! i]"
    by (simp add: take_Suc_conv_app_nth)
  have "remdups_adj (take i ys @ [ys ! i, ys ! Suc i]) =
          remdups_adj (take i ys @ [ys ! i]) @ (if ys ! i = ys ! Suc i then [] else [ys ! Suc i])"
    by (rule remdups_adj_append_two)
  with a b show ?thesis by simp
qed

lemma unique_loop_spec:
  "dest \<le> first \<Longrightarrow> first < length xs \<Longrightarrow> length xs = length ys \<Longrightarrow>
   take (Suc dest) xs = remdups_adj (take (Suc first) ys) \<Longrightarrow>
   drop (Suc dest) xs = drop (Suc dest) ys \<Longrightarrow>
   fst (unique_loop xs dest first) = remdups_adj ys @ drop (length (remdups_adj ys)) ys"
proof (induction xs dest first rule: unique_loop.induct)
  case (1 xs dest first)
  note len = \<open>length xs = length ys\<close>
  note pre = \<open>take (Suc dest) xs = remdups_adj (take (Suc first) ys)\<close>
  note post = \<open>drop (Suc dest) xs = drop (Suc dest) ys\<close>
  from pre have lenpre: "length (remdups_adj (take (Suc first) ys)) = Suc dest"
    using "1.prems"(1,2) by (metis length_take min.absorb2 Suc_leI le_trans Suc_le_mono)
  show ?case
  proof (cases "first + 1 < length xs")
    case False
    with "1.prems"(2) len have full: "take (Suc first) ys = ys" by simp
    have "xs = take (Suc dest) xs @ drop (Suc dest) xs" by simp
    also have "\<dots> = remdups_adj ys @ drop (Suc dest) ys"
      using pre post full by simp
    finally have final: "xs = remdups_adj ys @ drop (length (remdups_adj ys)) ys"
      using lenpre full by simp
    from False have "fst (unique_loop xs dest first) = xs"
      by (simp add: unique_loop.simps [of xs dest first])
    with final show ?thesis by simp
  next
    case inside: True
    have at_dest: "xs ! dest = ys ! first"
    proof -
      have "dest < length xs" using "1.prems"(1,2) by simp
      then have "xs ! dest = last (take (Suc dest) xs)"
        by (simp add: take_Suc_conv_app_nth)
      also have "\<dots> = last (take (Suc first) ys)"
        by (simp add: pre)
      also have "\<dots> = ys ! first"
        using "1.prems"(2) len by (simp add: take_Suc_conv_app_nth)
      finally show ?thesis .
    qed
    have at_next: "xs ! (first + 1) = ys ! Suc first"
    proof -
      have "xs ! (first + 1) = drop (Suc dest) xs ! (first - dest)"
        using "1.prems"(1) inside by simp
      also have "\<dots> = ys ! Suc first"
        using "1.prems"(1) inside len by (simp add: post)
      finally show ?thesis .
    qed
    from inside len have step: "remdups_adj (take (Suc (Suc first)) ys) =
        remdups_adj (take (Suc first) ys) @ (if ys ! first = ys ! Suc first then [] else [ys ! Suc first])"
      by (intro remdups_adj_take_step) simp
    show ?thesis
    proof (cases "xs ! dest \<noteq> xs ! (first + 1)")
      case True
      let ?xs' = "xs[dest + 1 := xs ! (first + 1)]"
      have d: "Suc dest < length xs" using "1.prems"(1) inside by simp
      have pre': "take (Suc (dest + 1)) ?xs' = remdups_adj (take (Suc (first + 1)) ys)"
      proof -
        have "take (Suc (Suc dest)) ?xs' = take (Suc dest) ?xs' @ [?xs' ! Suc dest]"
          using d by (simp add: take_Suc_conv_app_nth)
        also have "\<dots> = take (Suc dest) xs @ [ys ! Suc first]"
          using d at_next by simp
        also have "\<dots> = remdups_adj (take (Suc (Suc first)) ys)"
          using True at_dest at_next step pre by simp
        finally show ?thesis by simp
      qed
      have post': "drop (Suc (dest + 1)) ?xs' = drop (Suc (dest + 1)) ys"
      proof -
        have "drop (Suc (Suc dest)) ?xs' = drop (Suc (Suc dest)) xs" by simp
        also have "\<dots> = drop 1 (drop (Suc dest) xs)" by simp
        also have "\<dots> = drop 1 (drop (Suc dest) ys)" by (simp only: post)
        finally show ?thesis by simp
      qed
      have "fst (unique_loop ?xs' (dest + 1) (first + 1)) =
              remdups_adj ys @ drop (length (remdups_adj ys)) ys"
        using "1.prems"(1) inside len pre' post'
        by (intro "1.IH"(1) [OF inside True]) simp_all
      with inside True show ?thesis
        by (simp add: unique_loop.simps [of xs dest first])
    next
      case False
      have pre': "take (Suc dest) xs = remdups_adj (take (Suc (first + 1)) ys)"
        using False at_dest at_next step pre by simp
      have "fst (unique_loop xs dest (first + 1)) =
              remdups_adj ys @ drop (length (remdups_adj ys)) ys"
        using "1.prems"(1) inside len pre' post
        by (intro "1.IH"(2) [OF inside False]) simp_all
      with inside False show ?thesis
        by (simp add: unique_loop.simps [of xs dest first])
    qed
  qed
qed

lemma std_unique_eq:
  "fst (std_unique xs) = remdups_adj xs @ drop (length (remdups_adj xs)) xs"
proof -
  define r where "r = adjacent_find xs 0"
  from adjacent_find_spec [of xs 0 r] r_def
  have nodup: "\<forall>j. j < r \<and> Suc j < length xs \<longrightarrow> xs ! j \<noteq> xs ! Suc j"
    and fin: "r = length xs \<or> (Suc r < length xs \<and> xs ! r = xs ! Suc r)"
    by auto
  show ?thesis
  proof (cases "r = length xs")
    case True
    with nodup have "distinct_adj xs" by (simp add: distinct_adj_conv_nth)
    then have "remdups_adj xs = xs" by (simp add: distinct_adj_altdef)
    with True r_def show ?thesis by (simp add: std_unique_def)
  next
    case False
    with fin have r: "Suc r < length xs" and eq: "xs ! r = xs ! Suc r" by auto
    have "distinct_adj (take (Suc r) xs)"
      using nodup r by (simp add: distinct_adj_conv_nth)
    then have "remdups_adj (take (Suc r) xs) = take (Suc r) xs"
      by (simp add: distinct_adj_altdef)
    with remdups_adj_take_step [OF r] eq
    have pre: "take (Suc r) xs = remdups_adj (take (Suc (r + 1)) xs)" by simp
    have "fst (unique_loop xs r (r + 1)) = remdups_adj xs @ drop (length (remdups_adj xs)) xs"
      using r pre by (intro unique_loop_spec) simp_all
    with False r_def show ?thesis by (simp add: std_unique_def Let_def)
  qed
qed

text \<open>
  \<^verbatim>\<open>std::lower_bound\<close> stops between a place it saw below the value and a place it
  saw not below it, whatever the order of the elements.
\<close>

lemma lower_bound_spec:
  "lower_bound xs v first len = r \<Longrightarrow>
     first \<le> r \<and> r \<le> first + len
     \<and> (first < r \<longrightarrow> xs ! (r - 1) < v)
     \<and> (r < first + len \<longrightarrow> \<not> xs ! r < v)"
proof (induction xs v first len arbitrary: r rule: lower_bound.induct)
  case (1 xs val first len)
  show ?case
  proof (cases "0 < len")
    case False
    with "1.prems" show ?thesis by (simp add: lower_bound.simps [of xs val first len])
  next
    case pos: True
    define half where "half = len div 2"
    define middle where "middle = first + half"
    from pos have hl: "half < len" by (simp add: half_def)
    show ?thesis
    proof (cases "xs ! middle < val")
      case True
      with pos "1.prems" have rec: "lower_bound xs val (middle + 1) (len - half - 1) = r"
        by (simp add: lower_bound.simps [of xs val first len] half_def middle_def Let_def)
      from "1.IH"(1) [OF pos half_def middle_def True rec]
      have ih: "middle + 1 \<le> r" "r \<le> middle + 1 + (len - half - 1)"
        "middle + 1 < r \<longrightarrow> xs ! (r - 1) < val"
        "r < middle + 1 + (len - half - 1) \<longrightarrow> \<not> xs ! r < val"
        by blast+
      have e: "middle + 1 + (len - half - 1) = first + len"
        using hl by (simp add: middle_def)
      have "xs ! (r - 1) < val"
      proof (cases "r = middle + 1")
        case True
        with \<open>xs ! middle < val\<close> show ?thesis by simp
      next
        case False
        with ih(1,3) show ?thesis by simp
      qed
      with ih e show ?thesis by (simp add: middle_def)
    next
      case False
      with pos "1.prems" have rec: "lower_bound xs val first half = r"
        by (simp add: lower_bound.simps [of xs val first len] half_def middle_def Let_def)
      from "1.IH"(2) [OF pos half_def middle_def False rec]
      have ih: "first \<le> r" "r \<le> first + half"
        "first < r \<longrightarrow> xs ! (r - 1) < val"
        "r < first + half \<longrightarrow> \<not> xs ! r < val"
        by blast+
      have "\<not> xs ! r < val"
      proof (cases "r = first + half")
        case True
        with False show ?thesis by (simp add: middle_def)
      next
        case False
        with ih(2,4) show ?thesis by simp
      qed
      with ih hl show ?thesis by simp
    qed
  qed
qed

text \<open>
  On a sorted vector every search is defined and exact. The empty vector is sorted.
\<close>

lemma partitioned_Nil: "partitioned P []"
  by (simp add: partitioned_def)

lemma binary_search_Nil: "binary_search [] v = Inr False"
  by (simp add: binary_search_def partitioned_Nil lower_bound.simps)

lemma partitioned_sorted:
  fixes xs :: "'a::linorder list"
  assumes "sorted xs" and down: "\<And>a b. a \<le> b \<Longrightarrow> P b \<Longrightarrow> P a"
  shows "partitioned P xs"
  using assms(1)
proof (induction xs)
  case Nil
  show ?case by (simp add: partitioned_def)
next
  case (Cons x xs)
  show ?case
  proof (cases "P x")
    case True
    with Cons show ?thesis by (simp add: partitioned_def)
  next
    case False
    have "\<not> P y" if "y \<in> set xs" for y
    proof
      assume "P y"
      moreover from Cons.prems that have "x \<le> y" by auto
      ultimately have "P x" using down by blast
      with False show False ..
    qed
    with False show ?thesis by (auto simp: partitioned_def list_ex_iff)
  qed
qed

lemma binary_search_sorted:
  fixes xs :: "'a::linorder list"
  assumes srt: "sorted xs"
  shows "binary_search xs v = Inr (v \<in> set xs)"
proof -
  define r where "r = lower_bound xs v 0 (length xs)"
  from lower_bound_spec [of xs v 0 "length xs" r] r_def
  have rn: "r \<le> length xs"
    and below: "0 < r \<longrightarrow> xs ! (r - 1) < v"
    and above: "r < length xs \<longrightarrow> \<not> xs ! r < v"
    by auto
  have p1: "partitioned (\<lambda>e. e < v) xs"
    using srt by (rule partitioned_sorted) simp
  have p2: "partitioned (\<lambda>e. \<not> v < e) xs"
    using srt by (rule partitioned_sorted) simp
  have found: "r \<noteq> length xs \<and> \<not> v < xs ! r" if mem: "v \<in> set xs"
  proof -
    from mem obtain j where j: "j < length xs" "xs ! j = v"
      by (auto simp: in_set_conv_nth)
    have "r \<le> j"
    proof (rule ccontr)
      assume "\<not> r \<le> j"
      then have jr: "j \<le> r - 1" "0 < r" by simp_all
      with srt rn have "xs ! j \<le> xs ! (r - 1)"
        by (intro sorted_nth_mono) simp_all
      with below jr(2) j(2) show False by simp
    qed
    with srt j(1) have "xs ! r \<le> xs ! j"
      by (intro sorted_nth_mono) simp_all
    with j \<open>r \<le> j\<close> show ?thesis by simp
  qed
  have inside: "v \<in> set xs" if "r \<noteq> length xs" "\<not> v < xs ! r"
  proof -
    from that rn above have "r < length xs" "xs ! r = v" by simp_all
    then show ?thesis by (auto simp: in_set_conv_nth)
  qed
  from found inside have "(r \<noteq> length xs \<and> \<not> v < xs ! r) = (v \<in> set xs)" by blast
  with p1 p2 show ?thesis by (simp add: binary_search_def r_def Let_def)
qed

subsection \<open>Facts on the member functions\<close>

lemma push_back_in_empty: "push_back_unless_found [] out ms = Inr (out @ ms)"
  by (induction ms arbitrary: out) (simp_all add: binary_search_Nil)

lemma push_back_defined:
  "(\<And>m. m \<in> set ms \<Longrightarrow> binary_search hay m = Inr (m \<in> A)) \<Longrightarrow>
   push_back_unless_found hay out ms = Inr (out @ filter (\<lambda>m. m \<notin> A) ms)"
  by (induction ms arbitrary: out) simp_all

lemma push_back_appends:
  "push_back_unless_found hay out ms =
     (case push_back_unless_found hay [] ms of Inl e \<Rightarrow> Inl e | Inr r \<Rightarrow> Inr (out @ r))"
proof (induction ms arbitrary: out)
  case Nil
  show ?case by simp
next
  case (Cons m ms)
  show ?case
  proof (cases "binary_search hay m")
    case (Inl e)
    then show ?thesis by simp
  next
    case (Inr found)
    have a: "push_back_unless_found hay (if \<not> found then out @ [m] else out) ms =
        (case push_back_unless_found hay [] ms of
           Inl e \<Rightarrow> Inl e | Inr r \<Rightarrow> Inr ((if \<not> found then out @ [m] else out) @ r))"
      by (rule Cons.IH)
    have b: "push_back_unless_found hay (if \<not> found then [m] else []) ms =
        (case push_back_unless_found hay [] ms of
           Inl e \<Rightarrow> Inl e | Inr r \<Rightarrow> Inr ((if \<not> found then [m] else []) @ r))"
      by (rule Cons.IH)
    show ?thesis
    proof (cases found)
      case True
      with Inr a show ?thesis by simp
    next
      case False
      with Inr a b show ?thesis by (simp split: sum.splits)
    qed
  qed
qed

lemma scan_eq:
  "scanMulticastGroups derive added removed s =
     (case push_back_unless_found (tap_multicastGroups s) added (new_groups derive s) of
        Inl e \<Rightarrow> Inl e
      | Inr a \<Rightarrow>
          (case push_back_unless_found (new_groups derive s) removed (tap_multicastGroups s) of
             Inl e \<Rightarrow> Inl e
           | Inr r \<Rightarrow> Inr (a, r, s\<lparr>tap_multicastGroups := new_groups derive s\<rparr>)))"
  unfolding scanMulticastGroups_def new_groups_def Let_def foldl_derive append_Nil
  by (rule refl)

lemma scan_first:
  "tap_multicastGroups s = [] \<Longrightarrow>
   scanMulticastGroups derive added removed s =
     Inr (added @ new_groups derive s, removed, s\<lparr>tap_multicastGroups := new_groups derive s\<rparr>)"
  by (simp add: scan_eq push_back_in_empty)

lemma scan_commits_new_groups:
  "scanMulticastGroups derive added removed s = Inr (a, r, s') \<Longrightarrow>
   s' = s\<lparr>tap_multicastGroups := new_groups derive s\<rparr>"
  by (auto simp: scan_eq split: sum.splits)

lemma set_new_groups: "set (new_groups derive s) = derive ` set (ips s)"
proof -
  let ?o = "sort (map derive (ips s))"
  have "set (drop (length (remdups_adj ?o)) ?o) \<subseteq> set ?o" by (rule set_drop_subset)
  then have "set (remdups_adj ?o @ drop (length (remdups_adj ?o)) ?o) = set ?o" by auto
  then show ?thesis by (simp add: new_groups_def std_unique_eq)
qed

lemma length_new_groups: "length (new_groups derive s) = length (ips s)"
proof -
  let ?o = "sort (map derive (ips s))"
  have "length (remdups_adj ?o) \<le> length ?o" by (rule remdups_adj_length)
  then show ?thesis by (simp add: new_groups_def std_unique_eq)
qed

lemma new_groups_distinct_iff:
  "distinct (new_groups derive s) \<longleftrightarrow> distinct (map derive (ips s))"
proof
  assume "distinct (map derive (ips s))"
  then have "distinct (sort (map derive (ips s)))" by simp
  then have "remdups_adj (sort (map derive (ips s))) = sort (map derive (ips s))"
    by (rule remdups_adj_distinct)
  then have "new_groups derive s = sort (map derive (ips s))"
    by (simp add: new_groups_def std_unique_eq)
  with \<open>distinct (sort (map derive (ips s)))\<close> show "distinct (new_groups derive s)" by simp
next
  assume d: "distinct (new_groups derive s)"
  have "card (set (map derive (ips s))) = card (set (new_groups derive s))"
    by (simp add: set_new_groups)
  also have "\<dots> = length (new_groups derive s)"
    using d by (rule distinct_card)
  also have "\<dots> = length (map derive (ips s))"
    by (simp add: length_new_groups)
  finally show "distinct (map derive (ips s))" by (rule card_distinct)
qed

lemma new_groups_no_collision:
  "distinct (map derive (ips s)) \<Longrightarrow> new_groups derive s = sort (map derive (ips s))"
proof -
  assume "distinct (map derive (ips s))"
  then have "distinct (sort (map derive (ips s)))" by simp
  then have "remdups_adj (sort (map derive (ips s))) = sort (map derive (ips s))"
    by (rule remdups_adj_distinct)
  then show ?thesis by (simp add: new_groups_def std_unique_eq)
qed

lemma scan_commit_collision:
  assumes "a \<in> set (ips s)" and "b \<in> set (ips s)" and "a \<noteq> b" and "derive a = derive b"
    and "scanMulticastGroups derive added removed s = Inr (ad, re, s')"
  shows "\<not> distinct (tap_multicastGroups s')"
proof
  assume "distinct (tap_multicastGroups s')"
  with scan_commits_new_groups [OF assms(5)] have "distinct (map derive (ips s))"
    by (simp add: new_groups_distinct_iff)
  then have "inj_on derive (set (ips s))" by (simp add: distinct_map)
  with assms(1-4) show False by (auto dest: inj_onD)
qed

lemma scan_no_collision:
  assumes srt: "sorted (tap_multicastGroups s)" and inj: "distinct (map derive (ips s))"
  shows "scanMulticastGroups derive added removed s =
     Inr (added @ filter (\<lambda>m. m \<notin> set (tap_multicastGroups s)) (sort (map derive (ips s))),
          removed @ filter (\<lambda>m. m \<notin> derive ` set (ips s)) (tap_multicastGroups s),
          s\<lparr>tap_multicastGroups := sort (map derive (ips s))\<rparr>)"
proof -
  have ng: "new_groups derive s = sort (map derive (ips s))"
    using inj by (rule new_groups_no_collision)
  have a: "push_back_unless_found (tap_multicastGroups s) added (sort (map derive (ips s))) =
      Inr (added @ filter (\<lambda>m. m \<notin> set (tap_multicastGroups s)) (sort (map derive (ips s))))"
    by (rule push_back_defined) (rule binary_search_sorted [OF srt])
  have "binary_search (sort (map derive (ips s))) m = Inr (m \<in> derive ` set (ips s))" for m
    using binary_search_sorted [of "sort (map derive (ips s))" m] by simp
  then have r: "push_back_unless_found (sort (map derive (ips s))) removed (tap_multicastGroups s) =
      Inr (removed @ filter (\<lambda>m. m \<notin> derive ` set (ips s)) (tap_multicastGroups s))"
    by (intro push_back_defined)
  show ?thesis by (simp add: scan_eq ng a r)
qed

lemma scan_no_collision_disjoint_then_quiet:
  assumes srt: "sorted (tap_multicastGroups s)" and inj: "distinct (map derive (ips s))"
  shows "\<exists>a r s'. scanMulticastGroups derive [] [] s = Inr (a, r, s')
           \<and> set a \<inter> set r = {}
           \<and> ips s' = ips s
           \<and> scanMulticastGroups derive [] [] s' = Inr ([], [], s')"
proof -
  let ?ng = "sort (map derive (ips s))"
  let ?s' = "s\<lparr>tap_multicastGroups := ?ng\<rparr>"
  have ips': "ips ?s' = ips s" by (simp add: ips_def)
  have srt': "sorted (tap_multicastGroups ?s')" by simp
  from inj ips' have inj': "distinct (map derive (ips ?s'))" by simp
  have quiet: "filter (\<lambda>m. m \<notin> set ?ng) ?ng = []" "filter (\<lambda>m. m \<notin> derive ` set (ips s)) ?ng = []"
    by (simp_all add: filter_empty_conv)
  have second: "scanMulticastGroups derive [] [] ?s' = Inr ([], [], ?s')"
    using quiet by (simp add: scan_no_collision [OF srt' inj'] ips')
  have "set (filter (\<lambda>m. m \<notin> set (tap_multicastGroups s)) ?ng)
          \<inter> set (filter (\<lambda>m. m \<notin> derive ` set (ips s)) (tap_multicastGroups s)) = {}"
    by auto
  with second ips' show ?thesis
    by (simp add: scan_no_collision [OF srt inj])
qed

lemma example_calls:
  "run_calls [Add 1, Add 17, Add 2, Add 18, Add 3] example_tap =
     Inr (example_tap\<lparr>tap_ips := [1, 2, 3, 17, 18],
            effects := effects example_tap
              @ map (LwipInitInterface (tap_mac example_tap)) [1, 17, 2, 18, 3]\<rparr>)"
  by (simp add: example_tap_def VirtualTap_ctor_def addIp_def emit_def Let_def)

lemma example_new_groups:
  "new_groups low_bits (example_tap\<lparr>tap_ips := [1, 2, 3, 17, 18], effects := e\<rparr>)
     = [1, 2, 3, 2, 3]"
  by (simp add: new_groups_def ips_def low_bits_def std_unique_def
        adjacent_find.simps unique_loop.simps)

lemma example_search_1: "binary_search [1, 2, 3, 2, 3 :: nat] 1 = Inr True"
  by (simp add: binary_search_def partitioned_def lower_bound.simps)

lemma example_search_2: "binary_search [1, 2, 3, 2, 3 :: nat] 2 = Inl SearchUnpartitioned"
  by (simp add: binary_search_def partitioned_def)

lemma addIp_ips:
  "ips (snd (addIp x s)) = (if x \<in> set (ips s) then ips s else sort (ips s @ [x]))"
  by (simp add: addIp_def ips_def emit_def Let_def std_find_length_iff)

lemma removeIp_absent: "x \<notin> set (tap_ips s) \<Longrightarrow> removeIp x s = Inl EraseAtEnd"
  using std_find_less_iff [of "tap_ips s" x]
  by (simp add: removeIp_def std_erase_def Let_def)

lemma removeIp_present:
  "x \<in> set (tap_ips s) \<Longrightarrow>
   removeIp x s =
     Inr (True, s\<lparr>tap_ips := take (std_find (tap_ips s) x) (tap_ips s)
                              @ drop (Suc (std_find (tap_ips s) x)) (tap_ips s)\<rparr>)"
  using std_find_less_iff [of "tap_ips s" x]
  by (simp add: removeIp_def std_erase_def Let_def)

lemma removeIp_never_False: "removeIp x s \<noteq> Inr (False, s')"
  by (simp add: removeIp_def std_erase_def Let_def)

lemma strict_sorted_erase:
  assumes "sorted_wrt (<) xs" and "i < length xs"
  shows "sorted_wrt (<) (take i xs @ drop (Suc i) xs)"
proof -
  from assms(2) have "xs = take i xs @ xs ! i # drop (Suc i) xs"
    by (rule id_take_nth_drop)
  with assms(1) have "sorted_wrt (<) (take i xs @ xs ! i # drop (Suc i) xs)" by simp
  then show ?thesis by (simp add: sorted_wrt_append)
qed

lemma addIp_keeps_order:
  fixes x :: "'a::linorder"
  assumes "sorted (ips s) \<and> distinct (ips s)"
  shows "sorted (ips (snd (addIp x s))) \<and> distinct (ips (snd (addIp x s)))"
  using assms by (simp add: addIp_ips)

lemma removeIp_keeps_order:
  fixes x :: "'a::linorder"
  assumes "sorted (ips s) \<and> distinct (ips s)" and "removeIp x s = Inr (r, s')"
  shows "sorted (ips s') \<and> distinct (ips s')"
proof -
  have mem: "x \<in> set (tap_ips s)"
  proof (rule ccontr)
    assume "x \<notin> set (tap_ips s)"
    then have "removeIp x s = Inl EraseAtEnd" by (rule removeIp_absent)
    with assms(2) show False by simp
  qed
  then have i: "std_find (tap_ips s) x < length (tap_ips s)"
    by (simp add: std_find_less_iff)
  from assms(1) have "sorted_wrt (<) (tap_ips s)"
    by (simp add: strict_sorted_iff ips_def)
  from strict_sorted_erase [OF this i] removeIp_present [OF mem] assms(2)
  show ?thesis by (auto simp: strict_sorted_iff ips_def)
qed

lemma run_calls_keeps_order:
  fixes s :: "('a::linorder, 'g) VirtualTap"
  shows "sorted (ips s) \<and> distinct (ips s) \<Longrightarrow> run_calls cs s = Inr s' \<Longrightarrow>
         sorted (ips s') \<and> distinct (ips s')"
proof (induction cs arbitrary: s)
  case Nil
  then show ?case by simp
next
  case (Cons c cs)
  show ?case
  proof (cases c)
    case (Add x)
    with Cons.prems(2) have "run_calls cs (snd (addIp x s)) = Inr s'" by simp
    with Cons.IH [OF addIp_keeps_order [OF Cons.prems(1)]] show ?thesis .
  next
    case (Remove x)
    with Cons.prems(2) obtain r t where
      t: "removeIp x s = Inr (r, t)" and rest: "run_calls cs t = Inr s'"
      by (auto split: sum.splits)
    from Cons.IH [OF removeIp_keeps_order [OF Cons.prems(1) t] rest] show ?thesis .
  qed
qed

lemma recognize_netif4:
  "n \<noteq> 0 \<Longrightarrow> n = netif4 s \<Longrightarrow> n \<noteq> netif6 s \<Longrightarrow>
   recognizeLowerLevelInterfaceStateChange (\<lambda>_. u) n s =
     (if u = netif4WasUpLastCheck s then (ZTS_EVENT_NONE, s)
      else if u then (ZTS_EVENT_NETIF_UP_IP4, s\<lparr>netif4WasUpLastCheck := True\<rparr>)
      else (ZTS_EVENT_NETIF_DOWN_IP4, s\<lparr>netif4WasUpLastCheck := False\<rparr>))"
  by (simp add: recognizeLowerLevelInterfaceStateChange_def netif4_block_def)

lemma recognize_netif6:
  "n \<noteq> 0 \<Longrightarrow> n = netif6 s \<Longrightarrow> n \<noteq> netif4 s \<Longrightarrow>
   recognizeLowerLevelInterfaceStateChange (\<lambda>_. u) n s =
     (if u = netif6WasUpLastCheck s then (ZTS_EVENT_NONE, s)
      else if u then (ZTS_EVENT_NETIF_UP_IP6, s\<lparr>netif6WasUpLastCheck := True\<rparr>)
      else (ZTS_EVENT_NETIF_DOWN_IP6, s\<lparr>netif6WasUpLastCheck := False\<rparr>))"
  by (simp add: recognizeLowerLevelInterfaceStateChange_def netif6_block_def)

section \<open>The claims\<close>

subsection \<open>The address set\<close>

text \<open>
  Claim C1: for every address set and every address \<open>x\<close> that is not in it, \<^verbatim>\<open>removeIp(x)\<close>
  leaves the set unchanged and reports failure, and erases nothing. The source erases
  the iterator that \<^verbatim>\<open>std::find\<close> returned without comparing it with \<^verbatim>\<open>end()\<close>; the
  comparison is commented out. On the set that holds the address 1 alone, removing the
  address 2 erases \<^verbatim>\<open>end()\<close>, which is undefined. By \<open>removeIp_absent\<close> this is so for
  every absent address, and by \<open>removeIp_never_False\<close> no call reports failure.
\<close>

theorem removeIp_absent_example:
  "ips (snd (addIp 1 example_tap)) = [1]
   \<and> removeIp 2 (snd (addIp 1 example_tap)) = Inl EraseAtEnd"
  by (simp add: addIp_ips removeIp_absent example_tap_def VirtualTap_ctor_def ips_def
        addIp_def removeIp_def std_erase_def emit_def Let_def)

text \<open>
  Claim C6: after every sequence of \<^verbatim>\<open>addIp\<close> and \<^verbatim>\<open>removeIp\<close> calls from the empty set,
  \<^verbatim>\<open>ips()\<close> is sorted and has no duplicates. A sequence that removes an address that is
  not in the set runs into the undefined erase of claim C1 and has no snapshot at all;
  the shortest one is a single removal from the empty set. \<open>run_calls_keeps_order\<close>
  shows that every sequence that stays defined keeps the set sorted and duplicate-free.
\<close>

theorem run_calls_remove_absent_example:
  "run_calls [Add 1, Remove 2] example_tap = Inl EraseAtEnd
   \<and> run_calls [Remove 1] example_tap = Inl EraseAtEnd"
  by (simp add: example_tap_def VirtualTap_ctor_def
        addIp_def removeIp_def std_erase_def emit_def Let_def)

text \<open>
  Claim C7: for every state and every address \<open>x\<close>, a second \<^verbatim>\<open>addIp(x)\<close> right after the
  first leaves the size of the set as it is (and the set itself), and every call returns
  \<^verbatim>\<open>true\<close>.
\<close>

theorem addIp_twice:
  "fst (addIp x s) \<and> fst (addIp x (snd (addIp x s)))
   \<and> length (ips (snd (addIp x (snd (addIp x s))))) = length (ips (snd (addIp x s)))
   \<and> ips (snd (addIp x (snd (addIp x s)))) = ips (snd (addIp x s))"
proof -
  have ret: "fst (addIp y t)" for y :: 'a and t :: "('a, 'b) VirtualTap"
    by (simp add: addIp_def Let_def)
  have mem: "x \<in> set (ips (snd (addIp x s)))"
    by (simp add: addIp_ips)
  have "ips (snd (addIp x (snd (addIp x s)))) = ips (snd (addIp x s))"
    using mem by (simp add: addIp_ips [of x "snd (addIp x s)"])
  with ret show ?thesis by simp
qed

subsection \<open>Multicast groups\<close>

text \<open>
  Claim C2: after every scan the stored vector \<^verbatim>\<open>_multicastGroups\<close> is sorted and has no
  duplicates, also when different addresses derive the same group. The source calls
  \<^verbatim>\<open>std::unique\<close> and drops the iterator it returns, so the vector is never shortened.
  With five addresses that derive the groups 1, 2, 3, 1, 2 the first scan of a device is
  defined and the vector it stores is 1, 2, 3, 2, 3: neither sorted nor free of
  duplicates. By \<open>scan_commit_collision\<close> the stored vector has a duplicate whenever two
  addresses derive the same group.
\<close>

theorem scan_commit_keeps_duplicates:
  "case run_calls [Add 1, Add 17, Add 2, Add 18, Add 3] example_tap of
     Inl e \<Rightarrow> False
   | Inr s \<Rightarrow>
       ips s = [1, 2, 3, 17, 18]
       \<and> map low_bits (ips s) = [1, 2, 3, 1, 2]
       \<and> (case scanMulticastGroups low_bits [] [] s of
            Inl e \<Rightarrow> False
          | Inr (a, r, s') \<Rightarrow>
              tap_multicastGroups s' = [1, 2, 3, 2, 3]
              \<and> \<not> sorted (tap_multicastGroups s')
              \<and> \<not> distinct (tap_multicastGroups s'))"
proof -
  define s where "s = example_tap\<lparr>tap_ips := [1, 2, 3, 17, 18],
      effects := effects example_tap
        @ map (LwipInitInterface (tap_mac example_tap)) [1, 17, 2, 18, 3]\<rparr>"
  have run: "run_calls [Add 1, Add 17, Add 2, Add 18, Add 3] example_tap = Inr s"
    unfolding s_def by (rule example_calls)
  have addrs: "ips s = [1, 2, 3, 17, 18]"
    by (simp add: s_def ips_def)
  have fresh: "tap_multicastGroups s = []"
    by (simp add: s_def example_tap_def VirtualTap_ctor_def)
  have ng: "new_groups low_bits s = [1, 2, 3, 2, 3]"
    unfolding s_def by (rule example_new_groups)
  have scan: "scanMulticastGroups low_bits [] [] s =
      Inr ([1, 2, 3, 2, 3], [], s\<lparr>tap_multicastGroups := [1, 2, 3, 2, 3]\<rparr>)"
    using scan_first [OF fresh, of low_bits "[]" "[]"] by (simp only: ng append_Nil)
  have groups: "map low_bits [1, 2, 3, 17, 18] = [1, 2, 3, 1, 2]"
    by (simp add: low_bits_def)
  have bad: "\<not> sorted [1, 2, 3, 2, 3 :: nat]" "\<not> distinct [1, 2, 3, 2, 3 :: nat]"
    by simp_all
  have stored: "tap_multicastGroups (s\<lparr>tap_multicastGroups := [1, 2, 3, 2, 3]\<rparr>) = [1, 2, 3, 2, 3]"
    by simp
  show ?thesis
    by (simp only: run scan sum.case prod.case addrs stored groups bad simp_thms)
qed

text \<open>
  Claim C3: for every stored vector and every address set, the vectors \<open>added\<close> and
  \<open>removed\<close> of one scan have no element in common, and a second scan right after it,
  with the addresses unchanged, reports nothing added and nothing removed. After the
  scan of claim C2 the stored vector is 1, 2, 3, 2, 3. The second scan searches it for
  the group 2 with \<^verbatim>\<open>std::binary_search\<close>; the vector is not partitioned by that value,
  so the search is undefined and the scan reports nothing at all. By
  \<open>scan_no_collision_disjoint_then_quiet\<close> the claim holds whenever the stored vector is
  sorted and no two addresses derive the same group.
\<close>

theorem scan_repeated_undefined:
  "case run_calls [Add 1, Add 17, Add 2, Add 18, Add 3] example_tap of
     Inl e \<Rightarrow> False
   | Inr s \<Rightarrow>
       (case scanMulticastGroups low_bits [] [] s of
          Inl e \<Rightarrow> False
        | Inr (a, r, s') \<Rightarrow>
            a = [1, 2, 3, 2, 3] \<and> r = [] \<and> ips s' = ips s
            \<and> scanMulticastGroups low_bits [] [] s' = Inl SearchUnpartitioned)"
proof -
  define s where "s = example_tap\<lparr>tap_ips := [1, 2, 3, 17, 18],
      effects := effects example_tap
        @ map (LwipInitInterface (tap_mac example_tap)) [1, 17, 2, 18, 3]\<rparr>"
  define s' where "s' = s\<lparr>tap_multicastGroups := [1, 2, 3, 2, 3]\<rparr>"
  have run: "run_calls [Add 1, Add 17, Add 2, Add 18, Add 3] example_tap = Inr s"
    unfolding s_def by (rule example_calls)
  have fresh: "tap_multicastGroups s = []"
    by (simp add: s_def example_tap_def VirtualTap_ctor_def)
  have ng: "new_groups low_bits s = [1, 2, 3, 2, 3]"
    unfolding s_def by (rule example_new_groups)
  have scan: "scanMulticastGroups low_bits [] [] s = Inr ([1, 2, 3, 2, 3], [], s')"
    using scan_first [OF fresh, of low_bits "[]" "[]"] unfolding s'_def
    by (simp only: ng append_Nil)
  have same: "ips s' = ips s"
    by (simp add: s'_def ips_def)
  then have ng': "new_groups low_bits s' = [1, 2, 3, 2, 3]"
    using ng by (simp add: new_groups_def)
  have stored: "tap_multicastGroups s' = [1, 2, 3, 2, 3]"
    by (simp add: s'_def)
  have "push_back_unless_found [1, 2, 3, 2, 3 :: nat] [] [1, 2, 3, 2, 3] = Inl SearchUnpartitioned"
    using example_search_1 example_search_2
    by (simp only: push_back_unless_found.simps sum.case simp_thms if_True)
  then have again: "scanMulticastGroups low_bits [] [] s' = Inl SearchUnpartitioned"
    by (simp only: scan_eq ng' stored sum.case)
  show ?thesis
    by (simp only: run scan sum.case prod.case same again simp_thms)
qed

text \<open>
  Claim C8: for every stored vector, a scan with no address reports nothing added and
  reports the whole stored vector as removed.
\<close>

theorem scan_no_addresses:
  "ips s = [] \<Longrightarrow>
   scanMulticastGroups derive [] [] s =
     Inr ([], tap_multicastGroups s, s\<lparr>tap_multicastGroups := []\<rparr>)"
  by (simp add: scan_eq new_groups_def std_unique_Nil push_back_in_empty)

theorem scan_no_addresses_witness:
  "ips (example_tap\<lparr>tap_multicastGroups := [1, 2]\<rparr>) = []
   \<and> scanMulticastGroups low_bits [] [] (example_tap\<lparr>tap_multicastGroups := [1, 2]\<rparr>)
       = Inr ([], [1, 2], example_tap\<lparr>tap_multicastGroups := []\<rparr>)"
proof -
  have h: "ips (example_tap\<lparr>tap_multicastGroups := [1, 2]\<rparr>) = []"
    by (simp add: ips_def example_tap_def VirtualTap_ctor_def)
  from scan_no_addresses [OF h, of low_bits] h show ?thesis by simp
qed

text \<open>
  Claim C10: the scan appends to the two vectors of its caller without clearing them.
  What was in them stays at the front, the result of the scan follows, and a vector that
  comes back is the result of the scan only when it was passed empty. A scan that is
  undefined is so whatever the caller passes.
\<close>

theorem scan_appends:
  "scanMulticastGroups derive added removed s =
     (case scanMulticastGroups derive [] [] s of
        Inl e \<Rightarrow> Inl e
      | Inr (a, r, s') \<Rightarrow> Inr (added @ a, removed @ r, s'))
   \<and> (\<forall>a r s'. scanMulticastGroups derive [] [] s = Inr (a, r, s') \<longrightarrow>
         (scanMulticastGroups derive added removed s = Inr (a, removed @ r, s')) = (added = [])
       \<and> (scanMulticastGroups derive added removed s = Inr (added @ a, r, s')) = (removed = []))"
proof -
  have first: "scanMulticastGroups derive added removed s =
     (case scanMulticastGroups derive [] [] s of
        Inl e \<Rightarrow> Inl e
      | Inr (a, r, s') \<Rightarrow> Inr (added @ a, removed @ r, s'))"
    unfolding scan_eq
    by (subst push_back_appends [of _ added], subst push_back_appends [of _ removed])
       (simp split: sum.splits)
  then show ?thesis by (auto split: sum.splits)
qed

theorem scan_appends_witness:
  "scanMulticastGroups low_bits [] [] (example_tap\<lparr>tap_ips := [5, 6]\<rparr>)
     = Inr ([5, 6], [], example_tap\<lparr>tap_ips := [5, 6], tap_multicastGroups := [5, 6]\<rparr>)
   \<and> scanMulticastGroups low_bits [9] [8] (example_tap\<lparr>tap_ips := [5, 6]\<rparr>)
     = Inr ([9, 5, 6], [8], example_tap\<lparr>tap_ips := [5, 6], tap_multicastGroups := [5, 6]\<rparr>)
   \<and> scanMulticastGroups low_bits [9] [8] (example_tap\<lparr>tap_ips := [5, 6]\<rparr>)
     \<noteq> Inr ([5, 6], [8], example_tap\<lparr>tap_ips := [5, 6], tap_multicastGroups := [5, 6]\<rparr>)"
proof -
  define s where "s = example_tap\<lparr>tap_ips := [5, 6]\<rparr>"
  have fresh: "tap_multicastGroups s = []"
    by (simp add: s_def example_tap_def VirtualTap_ctor_def)
  have ng: "new_groups low_bits s = [5, 6]"
    by (simp add: s_def new_groups_def ips_def low_bits_def std_unique_def
          adjacent_find.simps)
  have base: "scanMulticastGroups low_bits [] [] s =
      Inr ([5, 6], [], s\<lparr>tap_multicastGroups := [5, 6]\<rparr>)"
    using scan_first [OF fresh, of low_bits "[]" "[]"] by (simp only: ng append_Nil)
  from scan_appends [of low_bits "[9]" "[8]" s] base
  show ?thesis unfolding s_def by simp
qed

subsection \<open>Interface state changes\<close>

text \<open>
  Claim C4: the check is edge-triggered. For a handle that is in one of the two slots,
  the slots holding different handles, and whose flag is up, the answers up, up, down,
  down, up of the driver give none, none, down, none, up. One call returns a code
  exactly when the answer differs from the flag and leaves the flag equal to the answer,
  so that a second call with the same answer returns none and changes nothing.
\<close>

theorem recognize_edge_triggered:
  assumes "n \<noteq> 0" and "netif4 s \<noteq> netif6 s"
  shows "(n = netif4 s \<and> netif4WasUpLastCheck s \<longrightarrow>
            fst (poll n [True, True, False, False, True] s) =
              [ZTS_EVENT_NONE, ZTS_EVENT_NONE, ZTS_EVENT_NETIF_DOWN_IP4,
               ZTS_EVENT_NONE, ZTS_EVENT_NETIF_UP_IP4])
       \<and> (n = netif6 s \<and> netif6WasUpLastCheck s \<longrightarrow>
            fst (poll n [True, True, False, False, True] s) =
              [ZTS_EVENT_NONE, ZTS_EVENT_NONE, ZTS_EVENT_NETIF_DOWN_IP6,
               ZTS_EVENT_NONE, ZTS_EVENT_NETIF_UP_IP6])
       \<and> (n = netif4 s \<longrightarrow>
            (fst (recognizeLowerLevelInterfaceStateChange (\<lambda>_. u) n s) = ZTS_EVENT_NONE)
              = (u = netif4WasUpLastCheck s)
            \<and> netif4WasUpLastCheck (snd (recognizeLowerLevelInterfaceStateChange (\<lambda>_. u) n s)) = u)
       \<and> (n = netif6 s \<longrightarrow>
            (fst (recognizeLowerLevelInterfaceStateChange (\<lambda>_. u) n s) = ZTS_EVENT_NONE)
              = (u = netif6WasUpLastCheck s)
            \<and> netif6WasUpLastCheck (snd (recognizeLowerLevelInterfaceStateChange (\<lambda>_. u) n s)) = u)
       \<and> (n = netif4 s \<or> n = netif6 s \<longrightarrow>
            recognizeLowerLevelInterfaceStateChange (\<lambda>_. u) n
              (snd (recognizeLowerLevelInterfaceStateChange (\<lambda>_. u) n s))
            = (ZTS_EVENT_NONE, snd (recognizeLowerLevelInterfaceStateChange (\<lambda>_. u) n s)))"
proof (intro conjI impI)
  assume h: "n = netif4 s \<and> netif4WasUpLastCheck s"
  with assms have "n \<noteq> netif6 s" by auto
  with h assms(1)
  show "fst (poll n [True, True, False, False, True] s) =
          [ZTS_EVENT_NONE, ZTS_EVENT_NONE, ZTS_EVENT_NETIF_DOWN_IP4,
           ZTS_EVENT_NONE, ZTS_EVENT_NETIF_UP_IP4]"
    by (simp add: recognize_netif4)
next
  assume h: "n = netif6 s \<and> netif6WasUpLastCheck s"
  with assms have "n \<noteq> netif4 s" by auto
  with h assms(1)
  show "fst (poll n [True, True, False, False, True] s) =
          [ZTS_EVENT_NONE, ZTS_EVENT_NONE, ZTS_EVENT_NETIF_DOWN_IP6,
           ZTS_EVENT_NONE, ZTS_EVENT_NETIF_UP_IP6]"
    by (simp add: recognize_netif6)
next
  assume h: "n = netif4 s"
  with assms have "n \<noteq> netif6 s" by auto
  with h assms(1)
  show "(fst (recognizeLowerLevelInterfaceStateChange (\<lambda>_. u) n s) = ZTS_EVENT_NONE)
          = (u = netif4WasUpLastCheck s)"
    by (simp add: recognize_netif4)
  from h assms(1) \<open>n \<noteq> netif6 s\<close>
  show "netif4WasUpLastCheck (snd (recognizeLowerLevelInterfaceStateChange (\<lambda>_. u) n s)) = u"
    by (simp add: recognize_netif4)
next
  assume h: "n = netif6 s"
  with assms have "n \<noteq> netif4 s" by auto
  with h assms(1)
  show "(fst (recognizeLowerLevelInterfaceStateChange (\<lambda>_. u) n s) = ZTS_EVENT_NONE)
          = (u = netif6WasUpLastCheck s)"
    by (simp add: recognize_netif6)
  from h assms(1) \<open>n \<noteq> netif4 s\<close>
  show "netif6WasUpLastCheck (snd (recognizeLowerLevelInterfaceStateChange (\<lambda>_. u) n s)) = u"
    by (simp add: recognize_netif6)
next
  assume "n = netif4 s \<or> n = netif6 s"
  then show "recognizeLowerLevelInterfaceStateChange (\<lambda>_. u) n
              (snd (recognizeLowerLevelInterfaceStateChange (\<lambda>_. u) n s))
            = (ZTS_EVENT_NONE, snd (recognizeLowerLevelInterfaceStateChange (\<lambda>_. u) n s))"
  proof
    assume h: "n = netif4 s"
    with assms have "n \<noteq> netif6 s" by auto
    with h assms(1) show ?thesis by (simp add: recognize_netif4)
  next
    assume h: "n = netif6 s"
    with assms have "n \<noteq> netif4 s" by auto
    with h assms(1) show ?thesis by (simp add: recognize_netif6)
  qed
qed

theorem recognize_edge_triggered_witness:
  "(7::nat) \<noteq> 0 \<and> netif4 example_tap \<noteq> netif6 example_tap
   \<and> 7 = netif4 example_tap \<and> netif4WasUpLastCheck example_tap
   \<and> fst (poll 7 [True, True, False, False, True] example_tap) =
       [ZTS_EVENT_NONE, ZTS_EVENT_NONE, ZTS_EVENT_NETIF_DOWN_IP4,
        ZTS_EVENT_NONE, ZTS_EVENT_NETIF_UP_IP4]
   \<and> (9::nat) \<noteq> 0 \<and> 9 = netif6 example_tap \<and> netif6WasUpLastCheck example_tap
   \<and> fst (poll 9 [True, True, False, False, True] example_tap) =
       [ZTS_EVENT_NONE, ZTS_EVENT_NONE, ZTS_EVENT_NETIF_DOWN_IP6,
        ZTS_EVENT_NONE, ZTS_EVENT_NETIF_UP_IP6]
   \<and> recognizeLowerLevelInterfaceStateChange (\<lambda>_. False) 7
        (snd (recognizeLowerLevelInterfaceStateChange (\<lambda>_. False) 7 example_tap))
      = (ZTS_EVENT_NONE, snd (recognizeLowerLevelInterfaceStateChange (\<lambda>_. False) 7 example_tap))"
proof -
  have h: "netif4 example_tap \<noteq> netif6 example_tap"
    "7 = netif4 example_tap" "netif4WasUpLastCheck example_tap"
    "9 = netif6 example_tap" "netif6WasUpLastCheck example_tap"
    by (simp_all add: example_tap_def VirtualTap_ctor_def)
  have n7: "(7::nat) \<noteq> 0" and n9: "(9::nat) \<noteq> 0" by simp_all
  from recognize_edge_triggered [OF n7 h(1), of False]
    recognize_edge_triggered [OF n9 h(1), of False] h
  show ?thesis by simp
qed

text \<open>
  The two blocks of the source are not exclusive: a handle that is in both slots at once
  has both flags consulted, the second when the first block does not return.
\<close>

lemma recognize_same_handle_in_both_slots:
  "fst (poll 7 [True, True, False, False, True] (example_tap\<lparr>netif6 := 7\<rparr>)) =
     [ZTS_EVENT_NONE, ZTS_EVENT_NONE, ZTS_EVENT_NETIF_DOWN_IP4,
      ZTS_EVENT_NETIF_DOWN_IP6, ZTS_EVENT_NETIF_UP_IP4]"
  by (simp add: example_tap_def VirtualTap_ctor_def recognizeLowerLevelInterfaceStateChange_def
        netif4_block_def netif6_block_def)

text \<open>
  Claim C9: for every state, a null handle and a handle that is in neither slot give
  \<^verbatim>\<open>ZTS_EVENT_NONE\<close> and leave the state, and so both flags, as they were.
\<close>

theorem recognize_unrecognized:
  "n = 0 \<or> (n \<noteq> netif4 s \<and> n \<noteq> netif6 s) \<Longrightarrow>
   recognizeLowerLevelInterfaceStateChange up n s = (ZTS_EVENT_NONE, s)"
  by (auto simp: recognizeLowerLevelInterfaceStateChange_def)

theorem recognize_unrecognized_witness:
  "recognizeLowerLevelInterfaceStateChange (\<lambda>_. False) 0 example_tap
     = (ZTS_EVENT_NONE, example_tap)
   \<and> (8 \<noteq> netif4 example_tap \<and> 8 \<noteq> netif6 example_tap)
   \<and> recognizeLowerLevelInterfaceStateChange (\<lambda>_. False) 8 example_tap
     = (ZTS_EVENT_NONE, example_tap)"
proof -
  have h: "8 \<noteq> netif4 example_tap \<and> 8 \<noteq> netif6 example_tap"
    by (simp add: example_tap_def VirtualTap_ctor_def)
  from recognize_unrecognized [of 0 example_tap "\<lambda>_. False"]
    recognize_unrecognized [of 8 example_tap "\<lambda>_. False"] h
  show ?thesis by simp
qed

subsection \<open>Destruction\<close>

text \<open>
  Claim C5: the destructor posts the network-down event, clears \<^verbatim>\<open>_run\<close>, writes one
  byte to the write end of the pipe, interrupts the I/O of the stack, disposes of the
  interfaces of the stack, joins the thread and closes both ends of the pipe, in this
  order.
\<close>

theorem destructor_order:
  "effects (destructor s) =
     effects s @ [PostEvent (tap_nwid s) ZTS_EVENT_NETWORK_DOWN, StoreRun False,
                  SysWrite 1 [0], PhyWhack, LwipDisposeOfNetifs, ThreadJoin,
                  SysClose 0, SysClose 1]
   \<and> \<not> tap_run (destructor s)"
  by (simp add: destructor_def emit_def Let_def)

end
